theory Spec2Isabelle
  imports Main "HOL-Library.Finite_Map"
begin

section \<open>Strings and the library calls the program relies on\<close>

text \<open>
  A Go string is a sequence of bytes, so it is a \<^typ>\<open>string\<close> here (a list of 8-bit
  characters); text outside ASCII appears as its UTF-8 bytes.  The control characters
  the program names are given names too.
\<close>

definition TAB :: char where "TAB = CHR 0x09"
definition LF :: char where "LF = CHR 0x0A"
definition VT :: char where "VT = CHR 0x0B"
definition FF :: char where "FF = CHR 0x0C"
definition CR :: char where "CR = CHR 0x0D"
definition SP :: char where "SP = CHR 0x20"

text \<open>
  \<open>strings.Split(s, sep)\<close> for a separator of one byte: the pieces between the
  separators, in order; one piece more than there are separators, so never an empty
  slice.
\<close>

fun splitFrom :: "char \<Rightarrow> string \<Rightarrow> string \<Rightarrow> string list" where
  "splitFrom sep piece [] = [piece]"
| "splitFrom sep piece (c # cs) =
     (if c = sep then piece # splitFrom sep [] cs else splitFrom sep (piece @ [c]) cs)"

definition strings_Split :: "string \<Rightarrow> char \<Rightarrow> string list" where
  "strings_Split s sep = splitFrom sep [] s"

text \<open>\<open>strings.Join(elems, sep)\<close>.\<close>

fun strings_Join :: "string list \<Rightarrow> string \<Rightarrow> string" where
  "strings_Join [] sep = []"
| "strings_Join [e] sep = e"
| "strings_Join (e # e' # es) sep = e @ sep @ strings_Join (e' # es) sep"

text \<open>The verb \<open>%d\<close> of \<open>fmt\<close>: a decimal numeral, with a minus sign below zero.\<close>

definition digit :: "nat \<Rightarrow> char" where
  "digit n = ''0123456789'' ! n"

fun showNat :: "nat \<Rightarrow> string" where
  "showNat n = (if n < 10 then [digit n] else showNat (n div 10) @ [digit (n mod 10)])"

declare showNat.simps [simp del]

definition showInt :: "int \<Rightarrow> string" where
  "showInt i = (if i < 0 then CHR ''-'' # showNat (nat (- i)) else showNat (nat i))"

section \<open>Panics and errors\<close>

text \<open>
  A panic unwinds the program; an error is a value a function returns.  A function that
  can do both has the type \<open>panic + (error + 'a)\<close>.
\<close>

datatype panic =
    IndexOutOfRange
  | RowLengthMismatch int int nat nat "string list"

datatype error =
    CannotGetDirectory
  | OpenFailed
  | ExtractPageTablesFailed int
  | WriteFailed string
  | FatalExit

text \<open>Indexing a slice, \<open>xs[i]\<close>: outside \<open>0 \<le> i < len(xs)\<close> the program panics.\<close>

definition at :: "'a list \<Rightarrow> int \<Rightarrow> panic + 'a" where
  "at xs i = (if 0 \<le> i \<and> i < int (length xs) then Inr (xs ! nat i) else Inl IndexOutOfRange)"

section \<open>PathPlanner: \<open>extractDirectory\<close>\<close>

text \<open>
  \<open>extractDirectory(filepath, depth)\<close> splits the path at \<open>/\<close>.  Depth \<open>-1\<close> takes the
  last segment, any other depth indexes the segments; the token is what precedes the
  first period of the segment.
\<close>

definition extractDirectory :: "string \<Rightarrow> int \<Rightarrow> panic + (error + string)" where
  "extractDirectory filepath depth =
     (let parts = strings_Split filepath (CHR ''/'') in
      if length parts = 0 then Inr (Inl CannotGetDirectory)
      else if depth = - 1 then
        (case at parts (int (length parts) - 1) of
           Inl p \<Rightarrow> Inl p
         | Inr fileName \<Rightarrow>
             (case at (strings_Split fileName (CHR ''.'')) 0 of
                Inl p \<Rightarrow> Inl p
              | Inr dirName \<Rightarrow> Inr (Inr dirName)))
      else
        (case at parts depth of
           Inl p \<Rightarrow> Inl p
         | Inr part \<Rightarrow>
             (case at (strings_Split part (CHR ''.'')) 0 of
                Inl p \<Rightarrow> Inl p
              | Inr dirName \<Rightarrow> Inr (Inr dirName))))"

text \<open>
  The driver's use of it (the lines that compute \<open>csvSubDir\<close> for one input path): the
  error of the first call is overwritten by the second call's before it is looked at,
  and a remaining error ends the run through \<open>log.Fatalf\<close>.
\<close>

definition csvSubDir :: "string \<Rightarrow> string \<Rightarrow> panic + (error + string)" where
  "csvSubDir csvDir inPath =
     (case extractDirectory inPath 1 of
        Inl p \<Rightarrow> Inl p
      | Inr year \<Rightarrow>
          (case extractDirectory inPath (- 1) of
             Inl p \<Rightarrow> Inl p
           | Inr (Inl e) \<Rightarrow> Inr (Inl FatalExit)
           | Inr (Inr csvMonthDirName) \<Rightarrow>
               (let csvYearDirName = (case year of Inl e \<Rightarrow> [] | Inr y \<Rightarrow> y) in
                Inr (Inr (csvDir @ ''/'' @ csvYearDirName @ ''/'' @ csvMonthDirName)))))"

section \<open>TextNormalizer: \<open>reduceSpaces\<close> and \<open>normalize\<close>\<close>

text \<open>
  \<open>reSpace\<close> is the regular expression \<open>(?m)\s+\<close>.  In Go's syntax the class \<open>\s\<close> is
  \<open>[\t\n\f\r ]\<close>: it holds the form feed and not the vertical tab.
\<close>

definition reSpaceClass :: "char \<Rightarrow> bool" where
  "reSpaceClass c \<longleftrightarrow> c = TAB \<or> c = LF \<or> c = FF \<or> c = CR \<or> c = SP"

text \<open>
  \<open>reSpace.ReplaceAllString(text, " ")\<close>: every maximal run of characters of the class
  becomes one space; the bytes in between are copied.
\<close>

function reSpace_ReplaceAllString :: "string \<Rightarrow> string" where
  "reSpace_ReplaceAllString [] = []"
| "reSpace_ReplaceAllString (c # cs) =
     (if reSpaceClass c then SP # reSpace_ReplaceAllString (dropWhile reSpaceClass cs)
      else c # reSpace_ReplaceAllString cs)"
  by pat_completeness auto
termination
  by (relation "measure length") (auto simp: less_Suc_eq_le length_dropWhile_le)

text \<open>\<open>strings.Trim(s, cutset)\<close>: the characters of the cutset are removed at both ends.\<close>

definition strings_Trim :: "string \<Rightarrow> string \<Rightarrow> string" where
  "strings_Trim s cutset =
     rev (dropWhile (\<lambda>c. c \<in> set cutset) (rev (dropWhile (\<lambda>c. c \<in> set cutset) s)))"

definition reduceSpaces :: "string \<Rightarrow> string" where
  "reduceSpaces text = strings_Trim (reSpace_ReplaceAllString text) [SP, TAB, LF, CR, VT]"

text \<open>
  \<open>norm.NFKC.String\<close> belongs to the library \<open>golang.org/x/text\<close>; it is the parameter
  \<open>nfkc\<close> of \<open>normalize\<close>.
\<close>

definition normalize :: "(string \<Rightarrow> string) \<Rightarrow> string \<Rightarrow> string" where
  "normalize nfkc text = reduceSpaces (nfkc text)"

text \<open>
  The whitespace characters of ASCII (those for which \<open>unicode.IsSpace\<close> holds below
  \<open>0x80\<close>), and the words of the specification about a text.
\<close>

definition asciiSpace :: "char \<Rightarrow> bool" where
  "asciiSpace c \<longleftrightarrow> c = TAB \<or> c = LF \<or> c = VT \<or> c = FF \<or> c = CR \<or> c = SP"

fun adjacent :: "(char \<Rightarrow> bool) \<Rightarrow> string \<Rightarrow> bool" where
  "adjacent P (a # b # cs) = (P a \<and> P b \<or> adjacent P (b # cs))"
| "adjacent P cs = False"

definition leading :: "(char \<Rightarrow> bool) \<Rightarrow> string \<Rightarrow> bool" where
  "leading P s = (case s of [] \<Rightarrow> False | c # cs \<Rightarrow> P c)"

definition trailing :: "(char \<Rightarrow> bool) \<Rightarrow> string \<Rightarrow> bool" where
  "trailing P s = leading P (rev s)"

text \<open>
  A text is collapsed when, of the characters of the class \<open>\s\<close>, it holds only spaces,
  and no two of them side by side.
\<close>

definition collapsed :: "string \<Rightarrow> bool" where
  "collapsed s \<longleftrightarrow> (\<forall>c \<in> set s. reSpaceClass c \<longrightarrow> c = SP) \<and> \<not> adjacent reSpaceClass s"

section \<open>TableModel: \<open>stringTable\<close>, \<open>wh\<close> and \<open>csv\<close>\<close>

type_synonym stringTable = "string list list"

definition wh :: "stringTable \<Rightarrow> int \<times> int" where
  "wh t = (if length t = 0 then (0, 0) else (int (length (t ! 0)), int (length t)))"

text \<open>
  The writer of \<open>encoding/csv\<close> (Go's standard library) with its default settings: comma
  as the delimiter, \<open>UseCRLF\<close> off.  \<open>fieldNeedsQuotes\<close>: the empty field is written
  bare; a backslash followed by a period is quoted; so is a field holding a delimiter,
  a quote, a line feed or a carriage return, or starting with a space in the sense of
  \<open>unicode.IsSpace\<close>.  The
  first rune of a field is a space when the field starts with one of the byte sequences
  of \<open>spaceRunes\<close> (the UTF-8 forms of the code points with the property White_Space).
\<close>

definition spaceRunes :: "string list" where
  "spaceRunes =
     [[TAB], [LF], [VT], [FF], [CR], [SP],
      [CHR 0xC2, CHR 0x85], [CHR 0xC2, CHR 0xA0], [CHR 0xE1, CHR 0x9A, CHR 0x80],
      [CHR 0xE2, CHR 0x80, CHR 0x80], [CHR 0xE2, CHR 0x80, CHR 0x81],
      [CHR 0xE2, CHR 0x80, CHR 0x82], [CHR 0xE2, CHR 0x80, CHR 0x83],
      [CHR 0xE2, CHR 0x80, CHR 0x84], [CHR 0xE2, CHR 0x80, CHR 0x85],
      [CHR 0xE2, CHR 0x80, CHR 0x86], [CHR 0xE2, CHR 0x80, CHR 0x87],
      [CHR 0xE2, CHR 0x80, CHR 0x88], [CHR 0xE2, CHR 0x80, CHR 0x89],
      [CHR 0xE2, CHR 0x80, CHR 0x8A], [CHR 0xE2, CHR 0x80, CHR 0xA8],
      [CHR 0xE2, CHR 0x80, CHR 0xA9], [CHR 0xE2, CHR 0x80, CHR 0xAF],
      [CHR 0xE2, CHR 0x81, CHR 0x9F], [CHR 0xE3, CHR 0x80, CHR 0x80]]"

definition startsWithSpace :: "string \<Rightarrow> bool" where
  "startsWithSpace field = list_ex (\<lambda>r. take (length r) field = r) spaceRunes"

definition fieldNeedsQuotes :: "string \<Rightarrow> bool" where
  "fieldNeedsQuotes field =
     (if field = [] then False
      else if field = [CHR 0x5C, CHR ''.''] then True
      else if list_ex (\<lambda>c. c = LF \<or> c = CR \<or> c = CHR 0x22 \<or> c = CHR '','') field then True
      else startsWithSpace field)"

text \<open>Inside the quotes a quote is doubled; every other byte is copied.\<close>

fun escapeField :: "string \<Rightarrow> string" where
  "escapeField [] = []"
| "escapeField (c # cs) = (if c = CHR 0x22 then CHR 0x22 # CHR 0x22 # escapeField cs else c # escapeField cs)"

definition writeField :: "string \<Rightarrow> string" where
  "writeField field =
     (if fieldNeedsQuotes field then CHR 0x22 # escapeField field @ [CHR 0x22] else field)"

text \<open>\<open>Writer.Write(record)\<close>: the fields with a comma before each but the first, then a line feed.\<close>

definition csvWriter_Write :: "string list \<Rightarrow> string" where
  "csvWriter_Write record = strings_Join (map writeField record) '','' @ [LF]"

text \<open>
  \<open>csv\<close>: the rows are written in order into the buffer \<open>b\<close>; a row whose length is not
  the width panics, and then nothing is returned.
\<close>

fun csvRows :: "int \<Rightarrow> int \<Rightarrow> nat \<Rightarrow> string \<Rightarrow> stringTable \<Rightarrow> panic + string" where
  "csvRows w h y b [] = Inr b"
| "csvRows w h y b (row # rows) =
     (if int (length row) \<noteq> w then Inl (RowLengthMismatch w h y (length row) row)
      else csvRows w h (Suc y) (b @ csvWriter_Write row) rows)"

definition csv :: "stringTable \<Rightarrow> panic + string" where
  "csv t = (case wh t of (w, h) \<Rightarrow> csvRows w h 0 [] t)"

section \<open>DocumentTableSet: \<open>docTables\<close>\<close>

text \<open>
  A Go map is a reference: copying a \<open>docTables\<close> copies the reference, and a write
  through one copy is seen through the other.  The maps therefore live in a heap, a list
  of map contents indexed by address, and a \<open>docTables\<close> holds the address of its map.
  \<open>makeMap\<close> (the call \<open>make(map[int][]stringTable)\<close>) allocates the next address.
  A map has finitely many keys, each once.  The zero value \<open>docTables{}\<close>, whose map is
  nil, is returned only together with an error, on which the driver stops; it is not
  modelled.
\<close>

type_synonym pageMap = "(int, stringTable list) fmap"
type_synonym heap = "pageMap list"

record docTables =
  pageTables :: nat

definition makeMap :: "heap \<Rightarrow> heap \<times> nat" where
  "makeMap hp = (hp @ [fmempty], length hp)"

text \<open>Reading \<open>m[k]\<close>: a missing key gives the zero value, the nil slice.\<close>

definition mapIndex :: "pageMap \<Rightarrow> int \<Rightarrow> stringTable list" where
  "mapIndex m k = (case fmlookup m k of None \<Rightarrow> [] | Some tables \<Rightarrow> tables)"

text \<open>Writing \<open>m[k] = v\<close> into the map at address \<open>a\<close>.\<close>

definition mapAssign :: "heap \<Rightarrow> nat \<Rightarrow> int \<Rightarrow> stringTable list \<Rightarrow> heap" where
  "mapAssign hp a k v = hp[a := fmupd k v (hp ! a)]"

text \<open>\<open>pageNumbers\<close>: the keys of the map, sorted by \<open>sort.Ints\<close>.\<close>

definition pageNumbers :: "heap \<Rightarrow> docTables \<Rightarrow> int list" where
  "pageNumbers hp r = sorted_list_of_fset (fmdom (hp ! pageTables r))"

text \<open>
  \<open>numTables\<close>: the sum of the lengths of the table lists.  The order in which \<open>range\<close>
  visits a map is not specified; the sum does not depend on it, and the model visits the
  keys in ascending order.
\<close>

definition numTables :: "heap \<Rightarrow> docTables \<Rightarrow> int" where
  "numTables hp r =
     sum_list (map (\<lambda>pageNum. int (length (mapIndex (hp ! pageTables r) pageNum))) (pageNumbers hp r))"

subsection \<open>\<open>describe\<close>\<close>

text \<open>
  The verb \<open>%q\<close> (\<open>strconv.Quote\<close>, of the standard library) is the parameter \<open>quote\<close>.
\<close>

definition describeRow :: "(string \<Rightarrow> string) \<Rightarrow> string list \<Rightarrow> string" where
  "describeRow quote row =
     (let cells = map (\<lambda>cell. if length cell > 0 then quote cell else []) row in
      ''        ['' @ strings_Join cells '', '' @ '']'' @ [LF])"

definition describeTable :: "(string \<Rightarrow> string) \<Rightarrow> int \<Rightarrow> nat \<Rightarrow> stringTable \<Rightarrow> string" where
  "describeTable quote level i table =
     (case wh table of (w, h) \<Rightarrow>
        ''      table '' @ showInt (int i + 1) @ '': '' @ showInt w @ '' x '' @ showInt h @ [LF]
        @ (if level \<le> 3 \<or> length table = 0 then []
           else concat (map (describeRow quote) table)))"

fun describeTables :: "(string \<Rightarrow> string) \<Rightarrow> int \<Rightarrow> nat \<Rightarrow> stringTable list \<Rightarrow> string" where
  "describeTables quote level i [] = []"
| "describeTables quote level i (table # tables) =
     describeTable quote level i table @ describeTables quote level (Suc i) tables"

definition describePage :: "(string \<Rightarrow> string) \<Rightarrow> int \<Rightarrow> pageMap \<Rightarrow> int \<Rightarrow> string" where
  "describePage quote level m pageNum =
     (let tables = mapIndex m pageNum in
      if length tables = 0 then []
      else ''   page '' @ showInt pageNum @ '': '' @ showInt (int (length tables)) @ '' tables'' @ [LF]
           @ (if level \<le> 2 then [] else describeTables quote level 0 tables))"

definition describe :: "(string \<Rightarrow> string) \<Rightarrow> heap \<Rightarrow> docTables \<Rightarrow> int \<Rightarrow> string" where
  "describe quote hp r level =
     (if level = 0 \<or> numTables hp r = 0 then [LF]
      else
        (let header = showInt (int (length (pageNumbers hp r))) @ '' pages ''
                      @ showInt (numTables hp r) @ '' tables'' @ [LF] in
         if level \<le> 1 then header
         else header @ concat (map (describePage quote level (hp ! pageTables r)) (pageNumbers hp r))))"

subsection \<open>\<open>filter\<close>\<close>

text \<open>The filter criterion in the words of the specification: wide enough and high enough.\<close>

definition passes :: "int \<Rightarrow> int \<Rightarrow> stringTable \<Rightarrow> bool" where
  "passes width height table \<longleftrightarrow> fst (wh table) \<ge> width \<and> snd (wh table) \<ge> height"

text \<open>
  The tables of a page that pass, in their order, and whether a map holds a table
  without rows.
\<close>

definition kept :: "int \<Rightarrow> int \<Rightarrow> pageMap \<Rightarrow> int \<Rightarrow> stringTable list" where
  "kept width height m pageNum = filter (passes width height) (mapIndex m pageNum)"

definition zeroRowTable :: "pageMap \<Rightarrow> bool" where
  "zeroRowTable m \<longleftrightarrow> (\<exists>pageNum tables. fmlookup m pageNum = Some tables \<and> [] \<in> set tables)"

text \<open>
  The inner loop of \<open>filter\<close>.  The test reads \<open>len(table[0])\<close> first, whatever the
  thresholds are: on a table without rows the index is out of range.
\<close>

fun filterTables :: "int \<Rightarrow> int \<Rightarrow> stringTable list \<Rightarrow> stringTable list \<Rightarrow> panic + stringTable list" where
  "filterTables width height filteredTables [] = Inr filteredTables"
| "filterTables width height filteredTables (table # tables) =
     (case at table 0 of
        Inl p \<Rightarrow> Inl p
      | Inr row0 \<Rightarrow>
          filterTables width height
            (if int (length row0) \<ge> width \<and> int (length table) \<ge> height
             then filteredTables @ [table] else filteredTables)
            tables)"

text \<open>
  The outer loop, over the keys of the receiver's map (visited in ascending order, the
  iterations being independent of each other).  Each iteration reads the receiver's map
  at address \<open>src\<close> and may write the new map at address \<open>dst\<close>.  The heap is returned
  also when the loop panics.
\<close>

fun filterPages :: "int \<Rightarrow> int \<Rightarrow> nat \<Rightarrow> nat \<Rightarrow> int list \<Rightarrow> heap \<Rightarrow> heap \<times> (panic + unit)" where
  "filterPages width height src dst [] hp = (hp, Inr ())"
| "filterPages width height src dst (pageNum # rest) hp =
     (case filterTables width height [] (mapIndex (hp ! src) pageNum) of
        Inl p \<Rightarrow> (hp, Inl p)
      | Inr filteredTables \<Rightarrow>
          filterPages width height src dst rest
            (if length filteredTables > 0 then mapAssign hp dst pageNum filteredTables else hp))"

definition filter_docTables :: "heap \<Rightarrow> docTables \<Rightarrow> int \<Rightarrow> int \<Rightarrow> heap \<times> (panic + docTables)" where
  "filter_docTables hp r width height =
     (case makeMap hp of (hp0, a) \<Rightarrow>
        (let filtered = \<lparr>pageTables = a\<rparr> in
         case filterPages width height (pageTables r) (pageTables filtered) (pageNumbers hp0 r) hp0 of
           (hp', Inl p) \<Rightarrow> (hp', Inl p)
         | (hp', Inr u) \<Rightarrow> (hp', Inr filtered)))"

section \<open>ExtractionDriver: \<open>extractTables\<close> and \<open>saveCSVFiles\<close>\<close>

text \<open>
  The document reader and the layout extractor are outside the program.  An opened
  document is its number of pages and, for each page number, what \<open>extractPageTables\<close>
  returns for it: an error or the tables of the page, already converted by
  \<open>asStringTable\<close>.
\<close>

record pdfReader =
  numPages :: int
  extractPageTables :: "int \<Rightarrow> error + stringTable list"

function extractLoop :: "pdfReader \<Rightarrow> nat \<Rightarrow> int \<Rightarrow> int \<Rightarrow> heap \<Rightarrow> heap \<times> (error + unit)" where
  "extractLoop pdf a pageNum lastPage hp =
     (if pageNum \<le> lastPage then
        (case extractPageTables pdf pageNum of
           Inl e \<Rightarrow> (hp, Inl (ExtractPageTablesFailed pageNum))
         | Inr tables \<Rightarrow> extractLoop pdf a (pageNum + 1) lastPage (mapAssign hp a pageNum tables))
      else (hp, Inr ()))"
  by pat_completeness auto
termination
  by (relation "measure (\<lambda>(pdf, a, pageNum, lastPage, hp). nat (lastPage + 1 - pageNum))") auto

declare extractLoop.simps [simp del]

text \<open>
  \<open>extractTables\<close>: \<open>opened\<close> is the outcome of opening the file and reading its page
  count.  The page range is clamped, a map is made, and every page of the range gets
  its entry.
\<close>

definition extractTables :: "heap \<Rightarrow> error + pdfReader \<Rightarrow> int \<Rightarrow> int \<Rightarrow> heap \<times> (error + docTables)" where
  "extractTables hp opened firstPage lastPage =
     (case opened of
        Inl e \<Rightarrow> (hp, Inl e)
      | Inr pdf \<Rightarrow>
          (let firstPage' = (if firstPage < 1 then 1 else firstPage);
               lastPage' = (if lastPage > numPages pdf then numPages pdf else lastPage)
           in case makeMap hp of (hp0, a) \<Rightarrow>
                (case extractLoop pdf a firstPage' lastPage' hp0 of
                   (hp', Inl e) \<Rightarrow> (hp', Inl e)
                 | (hp', Inr u) \<Rightarrow> (hp', Inr \<lparr>pageTables = a\<rparr>))))"

text \<open>
  \<open>saveCSVFiles\<close>.  The file system is the list of the files written so far, each with
  its path and contents, in the order of the writes; whether \<open>ioutil.WriteFile\<close>
  succeeds on a path is the parameter \<open>canWrite\<close>.
\<close>

type_synonym files = "(string \<times> string) list"







definition written :: "files \<Rightarrow> (string \<times> (panic + string)) list" where
  "written fs = map (\<lambda>(path, contents). (path, Inr contents)) fs"


section \<open>The reader of \<open>encoding/csv\<close>\<close>

text \<open>
  The standard CSV parser of a Go program is the \<open>Reader\<close> of \<open>encoding/csv\<close> (standard
  library, like the writer); it is modelled with its default settings, as \<open>ReadAll\<close>
  runs it.  It reads line by line, and \<open>readLine\<close> turns a carriage return and line feed
  at the end of a line into a line feed, also inside a quoted field, and drops a carriage
  return that ends the input.
\<close>

datatype csvError = ErrBareQuote | ErrQuote | ErrFieldCount

datatype mode = RecordStart | FieldStart | InField | InQuoted | QuoteSeen

fun readLineEndings :: "string \<Rightarrow> string" where
  "readLineEndings (c # d # cs) =
     (if c = CR \<and> d = LF then LF # readLineEndings cs else c # readLineEndings (d # cs))"
| "readLineEndings [c] = (if c = CR then [] else [c])"
| "readLineEndings [] = []"

text \<open>
  The fields of the records, character by character.  A line that holds nothing is
  skipped; a field that starts with a quote runs to the quote that closes it, two quotes
  inside standing for one; a quote inside a bare field and a character other than a
  comma or a line feed after the closing quote are errors, and so is input that ends
  inside the quotes.  \<open>field\<close>, \<open>record\<close> and \<open>records\<close> hold what has been read so far.
\<close>

fun readRecords :: "mode \<Rightarrow> string \<Rightarrow> string list \<Rightarrow> stringTable \<Rightarrow> string \<Rightarrow> csvError + stringTable" where
  "readRecords RecordStart field record records [] = Inr records"
| "readRecords FieldStart field record records [] = Inr (records @ [record @ [[]]])"
| "readRecords InField field record records [] = Inr (records @ [record @ [field]])"
| "readRecords InQuoted field record records [] = Inl ErrQuote"
| "readRecords QuoteSeen field record records [] = Inr (records @ [record @ [field]])"
| "readRecords RecordStart field record records (c # cs) =
     (if c = LF then readRecords RecordStart [] [] records cs
      else if c = CHR 0x22 then readRecords InQuoted [] record records cs
      else if c = CHR '','' then readRecords FieldStart [] (record @ [[]]) records cs
      else readRecords InField [c] record records cs)"
| "readRecords FieldStart field record records (c # cs) =
     (if c = LF then readRecords RecordStart [] [] (records @ [record @ [[]]]) cs
      else if c = CHR 0x22 then readRecords InQuoted [] record records cs
      else if c = CHR '','' then readRecords FieldStart [] (record @ [[]]) records cs
      else readRecords InField [c] record records cs)"
| "readRecords InField field record records (c # cs) =
     (if c = LF then readRecords RecordStart [] [] (records @ [record @ [field]]) cs
      else if c = CHR '','' then readRecords FieldStart [] (record @ [field]) records cs
      else if c = CHR 0x22 then Inl ErrBareQuote
      else readRecords InField (field @ [c]) record records cs)"
| "readRecords InQuoted field record records (c # cs) =
     (if c = CHR 0x22 then readRecords QuoteSeen field record records cs
      else readRecords InQuoted (field @ [c]) record records cs)"
| "readRecords QuoteSeen field record records (c # cs) =
     (if c = CHR 0x22 then readRecords InQuoted (field @ [CHR 0x22]) record records cs
      else if c = CHR '','' then readRecords FieldStart [] (record @ [field]) records cs
      else if c = LF then readRecords RecordStart [] [] (records @ [record @ [field]]) cs
      else Inl ErrQuote)"

text \<open>
  \<open>ReadAll\<close>: with \<open>FieldsPerRecord\<close> zero, every record must have as many fields as
  the first one.
\<close>

definition csvReader_ReadAll :: "string \<Rightarrow> csvError + stringTable" where
  "csvReader_ReadAll input =
     (case readRecords RecordStart [] [] [] (readLineEndings input) of
        Inl e \<Rightarrow> Inl e
      | Inr records \<Rightarrow>
          if list_all (\<lambda>record. length record = length (hd records)) records
          then Inr records else Inl ErrFieldCount)"

text \<open>
  Notions for the properties below: how the reader goes on after a field that ends with
  the character \<open>t\<close>; a bare field without special characters; a text that holds a
  carriage return followed by a line feed; a text that \<open>readLine\<close> leaves as it is.
\<close>

definition continue :: "char \<Rightarrow> string \<Rightarrow> string list \<Rightarrow> stringTable \<Rightarrow> string \<Rightarrow> csvError + stringTable" where
  "continue t field before records rest =
     (if t = CHR '','' then readRecords FieldStart [] (before @ [field]) records rest
      else readRecords RecordStart [] [] (records @ [before @ [field]]) rest)"

definition plain :: "string \<Rightarrow> bool" where
  "plain g \<longleftrightarrow> (\<forall>c \<in> set g. c \<noteq> LF \<and> c \<noteq> CHR '','' \<and> c \<noteq> CHR 0x22)"

fun hasCRLF :: "string \<Rightarrow> bool" where
  "hasCRLF (c # d # cs) = (c = CR \<and> d = LF \<or> hasCRLF (d # cs))"
| "hasCRLF cs = False"

definition safe :: "string \<Rightarrow> bool" where
  "safe s \<longleftrightarrow> \<not> hasCRLF s \<and> (s = [] \<or> last s \<noteq> CR)"

section \<open>Properties of \<open>extractDirectory\<close>\<close>

lemma splitFrom_length: "length (splitFrom sep piece s) = Suc (length (filter (\<lambda>c. c = sep) s))"
  by (induction s arbitrary: piece) simp_all

lemma strings_Split_length:
  "length (strings_Split s sep) = Suc (length (filter (\<lambda>c. c = sep) s))"
  by (simp add: strings_Split_def splitFrom_length)

lemma strings_Split_single: "length (strings_Split s sep) < 2 \<longleftrightarrow> sep \<notin> set s"
proof -
  have "length (filter (\<lambda>c. c = sep) s) = 0 \<longleftrightarrow> sep \<notin> set s"
    by (induction s) auto
  then show ?thesis
    by (simp add: strings_Split_length less_Suc_eq)
qed

lemma at_first_split: "\<exists>piece. at (strings_Split s sep) 0 = Inr piece"
  by (simp add: at_def strings_Split_length)

text \<open>
  C10.  \<open>extractDirectory(path, 1)\<close>, the call with which the driver derives the
  year-like token, is partial.  A path has fewer than two segments exactly when it
  contains no \<open>/\<close>; on such a path the call panics with an index out of range (it returns
  neither a token nor an error value), and so does the driver's computation of the
  output subdirectory.  On every other path the call returns a token.
\<close>

theorem extractDirectory_partial:
  "(length (strings_Split path (CHR ''/'')) < 2 \<longleftrightarrow> CHR ''/'' \<notin> set path)
   \<and> (CHR ''/'' \<notin> set path \<longrightarrow>
        extractDirectory path 1 = Inl IndexOutOfRange
        \<and> csvSubDir csvDir path = Inl IndexOutOfRange)
   \<and> (CHR ''/'' \<in> set path \<longrightarrow> (\<exists>token. extractDirectory path 1 = Inr (Inr token)))"
proof (intro conjI impI)
  show "length (strings_Split path (CHR ''/'')) < 2 \<longleftrightarrow> CHR ''/'' \<notin> set path"
    by (rule strings_Split_single)
next
  assume no: "CHR ''/'' \<notin> set path"
  then have short: "length (strings_Split path (CHR ''/'')) = 1"
    using strings_Split_single [of path "CHR ''/''"]
    by (simp add: strings_Split_length)
  then have "strings_Split path (CHR ''/'') \<noteq> []"
    by auto
  with short show ex: "extractDirectory path 1 = Inl IndexOutOfRange"
    by (simp add: extractDirectory_def Let_def at_def)
  show "csvSubDir csvDir path = Inl IndexOutOfRange"
    by (simp add: csvSubDir_def ex)
next
  assume yes: "CHR ''/'' \<in> set path"
  then have long: "\<not> length (strings_Split path (CHR ''/'')) < 2"
    using strings_Split_single [of path "CHR ''/''"] by simp
  then obtain part where part: "at (strings_Split path (CHR ''/'')) 1 = Inr part"
    by (auto simp: at_def)
  obtain token where "at (strings_Split part (CHR ''.'')) 0 = Inr token"
    using at_first_split by blast
  moreover from long have "strings_Split path (CHR ''/'') \<noteq> []"
    by auto
  ultimately show "\<exists>token. extractDirectory path 1 = Inr (Inr token)"
    using part by (simp add: extractDirectory_def Let_def)
qed

theorem extractDirectory_partial_witness:
  "CHR ''/'' \<notin> set ''January.pdf''
   \<and> extractDirectory ''January.pdf'' 1 = Inl IndexOutOfRange
   \<and> csvSubDir ''./outcsv'' ''January.pdf'' = Inl IndexOutOfRange
   \<and> extractDirectory ''PDF/2024/January.pdf'' 1 = Inr (Inr ''2024'')"
proof -
  have no: "CHR ''/'' \<notin> set ''January.pdf''" by simp
  have tok: "extractDirectory ''PDF/2024/January.pdf'' 1 = Inr (Inr ''2024'')"
    by (simp add: extractDirectory_def strings_Split_def at_def)
  from extractDirectory_partial [of "''January.pdf''" "''./outcsv''"] no tok
  show ?thesis by blast
qed

section \<open>Properties of \<open>filter\<close>\<close>

lemma at_0_Cons: "at (row0 # rows) 0 = Inr row0"
  by (simp add: at_def)

lemma at_0_Nil: "at [] 0 = Inl IndexOutOfRange"
  by (simp add: at_def)

lemma passes_Cons:
  "passes width height (row0 # rows) \<longleftrightarrow>
     int (length row0) \<ge> width \<and> int (length (row0 # rows)) \<ge> height"
  by (simp add: passes_def wh_def)

lemma filterTables_eq:
  "filterTables width height acc tables =
     (if [] \<in> set tables then Inl IndexOutOfRange
      else Inr (acc @ filter (passes width height) tables))"
proof (induction tables arbitrary: acc)
  case Nil
  show ?case by simp
next
  case (Cons table tables)
  show ?case
  proof (cases table)
    case Nil
    then show ?thesis by (simp add: at_0_Nil)
  next
    case (Cons row0 rows)
    then show ?thesis
      using Cons.IH by (simp add: at_0_Cons passes_Cons)
  qed
qed

lemma mapAssign_length: "length (mapAssign hp a k v) = length hp"
  by (simp add: mapAssign_def)

lemma mapAssign_other: "b \<noteq> a \<Longrightarrow> mapAssign hp a k v ! b = hp ! b"
  by (simp add: mapAssign_def)

lemma mapAssign_same:
  "a < length hp \<Longrightarrow> fmlookup (mapAssign hp a k v ! a) q = (if q = k then Some v else fmlookup (hp ! a) q)"
  by (simp add: mapAssign_def)

lemma filterPages_frame:
  "filterPages width height src dst pages hp = (hp', out) \<Longrightarrow>
     length hp' = length hp \<and> (\<forall>b. b \<noteq> dst \<longrightarrow> hp' ! b = hp ! b)"
proof (induction pages arbitrary: hp)
  case Nil
  then show ?case by simp
next
  case (Cons pageNum rest)
  show ?case
  proof (cases "filterTables width height [] (mapIndex (hp ! src) pageNum)")
    case (Inl p)
    with Cons.prems show ?thesis by simp
  next
    case (Inr ft)
    let ?hp1 = "if length ft > 0 then mapAssign hp dst pageNum ft else hp"
    from Cons.prems Inr have "filterPages width height src dst rest ?hp1 = (hp', out)"
      by simp
    from Cons.IH [OF this] show ?thesis
      by (simp add: mapAssign_length mapAssign_other split: if_splits)
  qed
qed

lemma filterPages_result:
  assumes "src \<noteq> dst" and "dst < length hp"
  shows "filterPages width height src dst pages hp = (hp', out) \<Longrightarrow>
     (out = Inl IndexOutOfRange \<and> (\<exists>pageNum \<in> set pages. [] \<in> set (mapIndex (hp ! src) pageNum)))
     \<or> (out = Inr () \<and> (\<forall>pageNum \<in> set pages. [] \<notin> set (mapIndex (hp ! src) pageNum))
          \<and> (\<forall>q. fmlookup (hp' ! dst) q =
                 (if q \<in> set pages \<and> kept width height (hp ! src) q \<noteq> []
                  then Some (kept width height (hp ! src) q) else fmlookup (hp ! dst) q)))"
  using assms(2)
proof (induction pages arbitrary: hp)
  case Nil
  then show ?case by simp
next
  case (Cons pageNum rest)
  let ?ts = "mapIndex (hp ! src) pageNum"
  show ?case
  proof (cases "[] \<in> set ?ts")
    case True
    with Cons.prems show ?thesis
      by (simp add: filterTables_eq)
  next
    case False
    let ?ft = "kept width height (hp ! src) pageNum"
    let ?hp1 = "if length ?ft > 0 then mapAssign hp dst pageNum ?ft else hp"
    have run: "filterPages width height src dst rest ?hp1 = (hp', out)"
      using Cons.prems(1) False by (simp add: filterTables_eq kept_def split: if_splits)
    have len: "dst < length ?hp1"
      using Cons.prems(2) by (simp add: mapAssign_length)
    have src: "?hp1 ! src = hp ! src"
      using assms(1) by (simp add: mapAssign_other)
    have dst: "\<And>q. fmlookup (?hp1 ! dst) q =
        (if q = pageNum \<and> ?ft \<noteq> [] then Some ?ft else fmlookup (hp ! dst) q)"
      using Cons.prems(2) by (simp add: mapAssign_same)
    from Cons.IH [OF run len] show ?thesis
      unfolding src dst using False by auto
  qed
qed

lemma set_pageNumbers: "set (pageNumbers hp r) = fset (fmdom (hp ! pageTables r))"
  by (simp add: pageNumbers_def)

lemma mapIndex_outside: "q \<notin> fset (fmdom m) \<Longrightarrow> mapIndex m q = []"
  by (simp add: mapIndex_def fmdom_notD)

lemma zeroRowTable_pages:
  "zeroRowTable (hp ! pageTables r) \<longleftrightarrow>
     (\<exists>pageNum \<in> set (pageNumbers hp r). [] \<in> set (mapIndex (hp ! pageTables r) pageNum))"
proof
  assume "zeroRowTable (hp ! pageTables r)"
  then obtain pageNum tables
    where "fmlookup (hp ! pageTables r) pageNum = Some tables" and "[] \<in> set tables"
    by (auto simp: zeroRowTable_def)
  then have "pageNum \<in> set (pageNumbers hp r)" and "[] \<in> set (mapIndex (hp ! pageTables r) pageNum)"
    by (auto simp: set_pageNumbers mapIndex_def intro: fmdomI)
  then show "\<exists>pageNum \<in> set (pageNumbers hp r). [] \<in> set (mapIndex (hp ! pageTables r) pageNum)"
    by blast
next
  assume "\<exists>pageNum \<in> set (pageNumbers hp r). [] \<in> set (mapIndex (hp ! pageTables r) pageNum)"
  then obtain pageNum where zero: "[] \<in> set (mapIndex (hp ! pageTables r) pageNum)"
    by blast
  then obtain tables where "fmlookup (hp ! pageTables r) pageNum = Some tables"
    by (cases "fmlookup (hp ! pageTables r) pageNum") (simp_all add: mapIndex_def)
  with zero show "zeroRowTable (hp ! pageTables r)"
    unfolding zeroRowTable_def by (intro exI [of _ pageNum] exI [of _ tables]) (simp add: mapIndex_def)
qed

lemma filter_docTables_cases:
  assumes valid: "pageTables r < length hp"
  shows "\<exists>hp'. length hp' = Suc (length hp) \<and> (\<forall>b < length hp. hp' ! b = hp ! b) \<and>
     (if zeroRowTable (hp ! pageTables r)
      then filter_docTables hp r width height = (hp', Inl IndexOutOfRange)
      else filter_docTables hp r width height = (hp', Inr \<lparr>pageTables = length hp\<rparr>)
           \<and> (\<forall>q. fmlookup (hp' ! length hp) q =
                  (if kept width height (hp ! pageTables r) q \<noteq> []
                   then Some (kept width height (hp ! pageTables r) q) else None)))"
proof -
  let ?hp0 = "hp @ [fmempty]"
  let ?src = "pageTables r"
  let ?dst = "length hp"
  obtain hp' out
    where run: "filterPages width height ?src ?dst (pageNumbers ?hp0 r) ?hp0 = (hp', out)"
    by (cases "filterPages width height ?src ?dst (pageNumbers ?hp0 r) ?hp0") blast
  have src: "?hp0 ! ?src = hp ! ?src"
    using valid by (simp add: nth_append)
  have pages: "pageNumbers ?hp0 r = pageNumbers hp r"
    by (simp add: pageNumbers_def src)
  have frame: "length hp' = length ?hp0 \<and> (\<forall>b. b \<noteq> ?dst \<longrightarrow> hp' ! b = ?hp0 ! b)"
    using filterPages_frame [OF run] .
  then have same: "\<forall>b < length hp. hp' ! b = hp ! b"
    by (simp add: nth_append)
  have ne: "?src \<noteq> ?dst" and lt: "?dst < length ?hp0"
    using valid by simp_all
  have is_filter: "filter_docTables hp r width height
      = (case out of Inl p \<Rightarrow> (hp', Inl p) | Inr u \<Rightarrow> (hp', Inr \<lparr>pageTables = ?dst\<rparr>))"
    using run by (simp add: filter_docTables_def makeMap_def split: sum.splits)
  show ?thesis
  proof (cases "zeroRowTable (hp ! ?src)")
    case True
    then have "out = Inl IndexOutOfRange"
      using filterPages_result [OF ne lt run] by (auto simp: zeroRowTable_pages src pages)
    with is_filter frame same True show ?thesis
      by (intro exI [of _ hp']) simp
  next
    case False
    then have out: "out = Inr ()"
      and look: "\<forall>q. fmlookup (hp' ! ?dst) q =
                 (if q \<in> set (pageNumbers hp r) \<and> kept width height (hp ! ?src) q \<noteq> []
                  then Some (kept width height (hp ! ?src) q) else None)"
      using filterPages_result [OF ne lt run] by (auto simp: zeroRowTable_pages src pages)
    have "\<And>q. q \<notin> set (pageNumbers hp r) \<Longrightarrow> kept width height (hp ! ?src) q = []"
      by (simp add: kept_def set_pageNumbers mapIndex_outside)
    with look have "\<forall>q. fmlookup (hp' ! ?dst) q =
                 (if kept width height (hp ! ?src) q \<noteq> []
                  then Some (kept width height (hp ! ?src) q) else None)"
      by auto
    with is_filter frame same False out show ?thesis
      by (intro exI [of _ hp']) simp
  qed
qed

lemma describe_cong:
  assumes "hp' ! pageTables r = hp ! pageTables r"
  shows "describe quote hp' r level = describe quote hp r level"
proof -
  have pages: "pageNumbers hp' r = pageNumbers hp r"
    using assms by (simp add: pageNumbers_def)
  have "numTables hp' r = numTables hp r"
    using assms by (simp add: numTables_def pages)
  with pages assms show ?thesis
    by (simp only: describe_def)
qed

section \<open>Properties of extraction, \<open>numTables\<close> and \<open>csv\<close>\<close>

lemma extractLoop_result:
  assumes "a < length hp"
  shows "extractLoop pdf a pageNum lastPage hp = (hp', Inr ()) \<Longrightarrow>
     length hp' = length hp \<and> (\<forall>b. b \<noteq> a \<longrightarrow> hp' ! b = hp ! b) \<and>
     (\<forall>q. if pageNum \<le> q \<and> q \<le> lastPage
          then \<exists>tables. extractPageTables pdf q = Inr tables \<and> fmlookup (hp' ! a) q = Some tables
          else fmlookup (hp' ! a) q = fmlookup (hp ! a) q)"
  using assms
proof (induction pdf a pageNum lastPage hp rule: extractLoop.induct)
  case (1 pdf a pageNum lastPage hp)
  show ?case
  proof (cases "pageNum \<le> lastPage")
    case False
    with "1.prems" show ?thesis
      by (subst (asm) extractLoop.simps) auto
  next
    case True
    have unfold: "extractLoop pdf a pageNum lastPage hp =
        (case extractPageTables pdf pageNum of
           Inl e \<Rightarrow> (hp, Inl (ExtractPageTablesFailed pageNum))
         | Inr tables \<Rightarrow> extractLoop pdf a (pageNum + 1) lastPage (mapAssign hp a pageNum tables))"
      using True by (subst extractLoop.simps) simp
    with "1.prems" obtain tables where page: "extractPageTables pdf pageNum = Inr tables"
      by (cases "extractPageTables pdf pageNum") simp_all
    let ?hp1 = "mapAssign hp a pageNum tables"
    have run: "extractLoop pdf a (pageNum + 1) lastPage ?hp1 = (hp', Inr ())"
      using "1.prems"(1) unfold page by simp
    have len: "a < length ?hp1"
      using "1.prems"(2) by (simp add: mapAssign_length)
    note IH = "1.IH" [OF True page run len]
    have look: "\<And>q. fmlookup (?hp1 ! a) q = (if q = pageNum then Some tables else fmlookup (hp ! a) q)"
      using "1.prems"(2) by (simp add: mapAssign_same)
    show ?thesis
    proof (intro conjI allI)
      show "length hp' = length hp"
        using IH by (simp add: mapAssign_length)
      show "b \<noteq> a \<longrightarrow> hp' ! b = hp ! b" for b
        using IH by (simp add: mapAssign_other)
      show "if pageNum \<le> q \<and> q \<le> lastPage
          then \<exists>tables. extractPageTables pdf q = Inr tables \<and> fmlookup (hp' ! a) q = Some tables
          else fmlookup (hp' ! a) q = fmlookup (hp ! a) q" for q
      proof (cases "q = pageNum")
        case True
        with IH have "fmlookup (hp' ! a) q = fmlookup (?hp1 ! a) q"
          by (auto split: if_splits)
        with True \<open>pageNum \<le> lastPage\<close> page look show ?thesis by simp
      next
        case False
        with IH [THEN conjunct2, THEN conjunct2, THEN spec, of q] look show ?thesis
          by (auto split: if_splits)
      qed
    qed
  qed
qed

lemma extractTables_result:
  assumes "extractTables hp opened firstPage lastPage = (hp', Inr r)"
  shows "\<exists>pdf. opened = Inr pdf \<and> pageTables r = length hp \<and> length hp' = Suc (length hp) \<and>
     (\<forall>q. if max 1 firstPage \<le> q \<and> q \<le> min lastPage (numPages pdf)
          then \<exists>tables. extractPageTables pdf q = Inr tables \<and> fmlookup (hp' ! pageTables r) q = Some tables
          else fmlookup (hp' ! pageTables r) q = None)"
proof (cases opened)
  case (Inl e)
  with assms show ?thesis by (simp add: extractTables_def)
next
  case (Inr pdf)
  let ?first = "if firstPage < 1 then 1 else firstPage"
  let ?last = "if lastPage > numPages pdf then numPages pdf else lastPage"
  have clamp: "?first = max 1 firstPage" "?last = min lastPage (numPages pdf)"
    by auto
  from assms Inr have run: "extractLoop pdf (length hp) ?first ?last (hp @ [fmempty]) = (hp', Inr ())"
    and r: "pageTables r = length hp"
    by (auto simp: extractTables_def makeMap_def Let_def split: prod.splits sum.splits)
  have "length hp < length (hp @ [fmempty])" by simp
  from extractLoop_result [OF this run] r Inr show ?thesis
    unfolding clamp by (intro exI [of _ pdf]) (simp add: nth_append)
qed

lemma sum_list_zero_int:
  "(\<forall>x \<in> set xs. (0::int) \<le> f x) \<Longrightarrow> sum_list (map f xs) = 0 \<longleftrightarrow> (\<forall>x \<in> set xs. f x = 0)"
  using sum_list_nonneg_eq_0_iff [of "map f xs"] by auto

lemma numTables_zero:
  "numTables hp r = 0 \<longleftrightarrow> (\<forall>pageNum. mapIndex (hp ! pageTables r) pageNum = [])"
proof -
  have "numTables hp r = 0 \<longleftrightarrow>
      (\<forall>pageNum \<in> set (pageNumbers hp r). mapIndex (hp ! pageTables r) pageNum = [])"
    unfolding numTables_def by (subst sum_list_zero_int) simp_all
  also have "\<dots> \<longleftrightarrow> (\<forall>pageNum. mapIndex (hp ! pageTables r) pageNum = [])"
    using mapIndex_outside [of _ "hp ! pageTables r"] by (auto simp: set_pageNumbers)
  finally show ?thesis .
qed

lemma csvRows_eq:
  "csvRows w h y b rows =
     (if \<forall>row \<in> set rows. int (length row) = w then Inr (b @ concat (map csvWriter_Write rows))
      else Inl (RowLengthMismatch w h (y + length (takeWhile (\<lambda>row. int (length row) = w) rows))
                  (length (hd (dropWhile (\<lambda>row. int (length row) = w) rows)))
                  (hd (dropWhile (\<lambda>row. int (length row) = w) rows))))"
  by (induction rows arbitrary: y b) simp_all

subsection \<open>The two outcomes of \<open>filter\<close>\<close>

lemma filter_docTables_panic:
  assumes "pageTables r < length hp" and "zeroRowTable (hp ! pageTables r)"
  shows "\<exists>hp'. filter_docTables hp r width height = (hp', Inl IndexOutOfRange)
     \<and> length hp' = Suc (length hp) \<and> (\<forall>b < length hp. hp' ! b = hp ! b)"
proof -
  from filter_docTables_cases [OF assms(1), of width height] obtain hp'
    where "length hp' = Suc (length hp)" and "\<forall>b < length hp. hp' ! b = hp ! b"
      and "if zeroRowTable (hp ! pageTables r)
      then filter_docTables hp r width height = (hp', Inl IndexOutOfRange)
      else filter_docTables hp r width height = (hp', Inr \<lparr>pageTables = length hp\<rparr>)
           \<and> (\<forall>q. fmlookup (hp' ! length hp) q =
                  (if kept width height (hp ! pageTables r) q \<noteq> []
                   then Some (kept width height (hp ! pageTables r) q) else None))"
    by blast
  with assms(2) show ?thesis
    by (intro exI [of _ hp']) simp
qed

lemma filter_docTables_ok:
  assumes "pageTables r < length hp" and "\<not> zeroRowTable (hp ! pageTables r)"
  shows "\<exists>hp'. filter_docTables hp r width height = (hp', Inr \<lparr>pageTables = length hp\<rparr>)
     \<and> length hp' = Suc (length hp) \<and> (\<forall>b < length hp. hp' ! b = hp ! b)
     \<and> (\<forall>q. fmlookup (hp' ! length hp) q =
            (if kept width height (hp ! pageTables r) q \<noteq> []
             then Some (kept width height (hp ! pageTables r) q) else None))"
proof -
  from filter_docTables_cases [OF assms(1), of width height] obtain hp'
    where "length hp' = Suc (length hp)" and "\<forall>b < length hp. hp' ! b = hp ! b"
      and "if zeroRowTable (hp ! pageTables r)
      then filter_docTables hp r width height = (hp', Inl IndexOutOfRange)
      else filter_docTables hp r width height = (hp', Inr \<lparr>pageTables = length hp\<rparr>)
           \<and> (\<forall>q. fmlookup (hp' ! length hp) q =
                  (if kept width height (hp ! pageTables r) q \<noteq> []
                   then Some (kept width height (hp ! pageTables r) q) else None))"
    by blast
  with assms(2) show ?thesis
    by (intro exI [of _ hp']) simp
qed

lemma filter_docTables_frame:
  assumes "pageTables r < length hp" and "filter_docTables hp r width height = (hp', out)"
  shows "length hp' = Suc (length hp) \<and> (\<forall>b < length hp. hp' ! b = hp ! b)"
proof (cases "zeroRowTable (hp ! pageTables r)")
  case True
  from filter_docTables_panic [OF assms(1) True, of width height] assms(2)
  show ?thesis by force
next
  case False
  from filter_docTables_ok [OF assms(1) False, of width height] assms(2)
  show ?thesis by force
qed

lemma filter_docTables_returns:
  assumes "pageTables r < length hp" and "filter_docTables hp r width height = (hp', Inr filtered)"
  shows "\<not> zeroRowTable (hp ! pageTables r) \<and> pageTables filtered = length hp \<and>
     (\<forall>q. fmlookup (hp' ! pageTables filtered) q =
            (if kept width height (hp ! pageTables r) q \<noteq> []
             then Some (kept width height (hp ! pageTables r) q) else None))"
proof (cases "zeroRowTable (hp ! pageTables r)")
  case True
  from filter_docTables_panic [OF assms(1) True, of width height] assms(2)
  show ?thesis by force
next
  case False
  from filter_docTables_ok [OF assms(1) False, of width height] obtain hp2
    where res: "filter_docTables hp r width height = (hp2, Inr \<lparr>pageTables = length hp\<rparr>)"
      and look: "\<forall>q. fmlookup (hp2 ! length hp) q =
            (if kept width height (hp ! pageTables r) q \<noteq> []
             then Some (kept width height (hp ! pageTables r) q) else None)"
    by blast
  from res assms(2) have "hp2 = hp'" and "filtered = \<lparr>pageTables = length hp\<rparr>"
    by simp_all
  with look False show ?thesis by simp
qed

lemma filter_docTables_tables:
  assumes "pageTables r < length hp" and "filter_docTables hp r width height = (hp', Inr filtered)"
  shows "mapIndex (hp' ! pageTables filtered) q
     = filter (passes width height) (mapIndex (hp ! pageTables r) q)"
proof -
  from filter_docTables_returns [OF assms]
  have "fmlookup (hp' ! pageTables filtered) q =
            (if kept width height (hp ! pageTables r) q \<noteq> []
             then Some (kept width height (hp ! pageTables r) q) else None)"
    by blast
  then have "mapIndex (hp' ! pageTables filtered) q = kept width height (hp ! pageTables r) q"
    by (simp add: mapIndex_def)
  then show ?thesis
    by (simp add: kept_def)
qed

lemma csv_rectangular:
  "\<forall>row \<in> set t. length row = length (t ! 0) \<Longrightarrow> csv t = Inr (concat (map csvWriter_Write t))"
  by (cases t) (simp_all add: csv_def wh_def csvRows_eq)

section \<open>The claims about \<open>filter\<close>, \<open>describe\<close> and \<open>csv\<close>\<close>

text \<open>
  C7.  \<open>filter\<close> leaves its receiver unchanged.  Whatever the call does (it may return or
  panic), every map that existed before the call holds afterwards what it held before;
  in particular the receiver's map does, and \<open>describe\<close> on the receiver gives the same
  text after the call as before it, at every level.
\<close>

theorem filter_leaves_receiver_unchanged:
  assumes "pageTables r < length hp" and "filter_docTables hp r width height = (hp', out)"
  shows "(\<forall>b < length hp. hp' ! b = hp ! b)
     \<and> hp' ! pageTables r = hp ! pageTables r
     \<and> describe quote hp' r level = describe quote hp r level"
proof -
  have same: "\<forall>b < length hp. hp' ! b = hp ! b"
    using filter_docTables_frame [OF assms] by simp
  with assms(1) have eq: "hp' ! pageTables r = hp ! pageTables r"
    by simp
  from same eq describe_cong [OF eq, of quote level] show ?thesis
    by blast
qed

theorem filter_leaves_receiver_unchanged_witness:
  "pageTables \<lparr>pageTables = 0\<rparr> < length [fmupd 2 [[[''a'', ''b''], [''c'', ''d'']], [[''x'']]] fmempty :: pageMap]
   \<and> filter_docTables [fmupd 2 [[[''a'', ''b''], [''c'', ''d'']], [[''x'']]] fmempty] \<lparr>pageTables = 0\<rparr> 2 2
       = ([fmupd 2 [[[''a'', ''b''], [''c'', ''d'']], [[''x'']]] fmempty,
           fmupd 2 [[[''a'', ''b''], [''c'', ''d'']]] fmempty], Inr \<lparr>pageTables = 1\<rparr>)
   \<and> describe (\<lambda>cell. cell)
        [fmupd 2 [[[''a'', ''b''], [''c'', ''d'']], [[''x'']]] fmempty,
         fmupd 2 [[[''a'', ''b''], [''c'', ''d'']]] fmempty] \<lparr>pageTables = 0\<rparr> 4
     = describe (\<lambda>cell. cell)
        [fmupd 2 [[[''a'', ''b''], [''c'', ''d'']], [[''x'']]] fmempty] \<lparr>pageTables = 0\<rparr> 4"
proof -
  let ?S = "fmupd 2 [[[''a'', ''b''], [''c'', ''d'']], [[''x'']]] fmempty :: pageMap"
  let ?F = "fmupd 2 [[[''a'', ''b''], [''c'', ''d'']]] fmempty :: pageMap"
  have valid: "pageTables \<lparr>pageTables = 0\<rparr> < length [?S]"
    by simp
  have run: "filter_docTables [?S] \<lparr>pageTables = 0\<rparr> 2 2 = ([?S, ?F], Inr \<lparr>pageTables = 1\<rparr>)"
    by code_simp
  from filter_leaves_receiver_unchanged [OF valid run, of "\<lambda>cell. cell" 4] valid run
  show ?thesis by blast
qed

text \<open>
  C1.  When \<open>filter\<close> returns, the page of the result holds exactly the tables of that
  page that are wide and high enough, in their order (lemma \<open>filter_docTables_tables\<close>).
  But it does not return on every set.  A set with one page holding a table of one row
  and one cell, and after it a table without rows: the first table is wide and high
  enough for the thresholds \<open>(1, 1)\<close>, so it should be in the result of \<open>filter(1, 1)\<close>;
  the call panics on the second table and there is no result.
\<close>

theorem filter_aborts_beside_passing_table:
  "passes 1 1 [[''a'']]
   \<and> snd (filter_docTables [fmupd 1 [[[''a'']], []] fmempty] \<lparr>pageTables = 0\<rparr> 1 1)
       = Inl IndexOutOfRange"
proof
  show "passes 1 1 [[''a'']]"
    by (simp add: passes_def wh_def)
  show "snd (filter_docTables [fmupd 1 [[[''a'']], []] fmempty] \<lparr>pageTables = 0\<rparr> 1 1)
       = Inl IndexOutOfRange"
    by code_simp
qed

text \<open>
  C2.  \<open>filter\<close> is not total.  It panics with an index out of range exactly when the
  receiver holds a table without rows, whatever the thresholds are: the test reads
  \<open>table[0]\<close> without the guard that \<open>wh\<close> and \<open>describe\<close> have.
\<close>

theorem filter_panics_on_zero_row_table:
  assumes "pageTables r < length hp"
  shows "snd (filter_docTables hp r width height) = Inl IndexOutOfRange
     \<longleftrightarrow> zeroRowTable (hp ! pageTables r)"
proof (cases "zeroRowTable (hp ! pageTables r)")
  case True
  from filter_docTables_panic [OF assms True, of width height] True
  show ?thesis by force
next
  case False
  from filter_docTables_ok [OF assms False, of width height] False
  show ?thesis by force
qed

theorem filter_panics_on_zero_row_table_witness:
  "pageTables \<lparr>pageTables = 0\<rparr> < length [fmupd 1 [[]] fmempty :: pageMap]
   \<and> zeroRowTable ([fmupd 1 [[]] fmempty] ! pageTables \<lparr>pageTables = 0\<rparr>)
   \<and> snd (filter_docTables [fmupd 1 [[]] fmempty] \<lparr>pageTables = 0\<rparr> 1 1) = Inl IndexOutOfRange"
proof -
  let ?S = "fmupd 1 [[]] fmempty :: pageMap"
  have valid: "pageTables \<lparr>pageTables = 0\<rparr> < length [?S]"
    by simp
  have zero: "zeroRowTable ([?S] ! pageTables \<lparr>pageTables = 0\<rparr>)"
    unfolding zeroRowTable_def by (intro exI [of _ 1] exI [of _ "[[]]"]) simp
  have "snd (filter_docTables [?S] \<lparr>pageTables = 0\<rparr> 1 1) = Inl IndexOutOfRange"
    using filter_panics_on_zero_row_table [OF valid, of 1 1] zero by (rule iffD2)
  with valid zero show ?thesis
    by (intro conjI)
qed

text \<open>
  C9.  \<open>describe(0)\<close> is a single line feed on every set, and so is \<open>describe(level)\<close>,
  for every level, on a set whose table count is zero; the count is zero exactly when no
  page of the set holds a table.
\<close>

theorem describe_newline:
  "describe quote hp r 0 = [LF]
   \<and> (numTables hp r = 0 \<longrightarrow> describe quote hp r level = [LF])
   \<and> (numTables hp r = 0 \<longleftrightarrow> (\<forall>pageNum. mapIndex (hp ! pageTables r) pageNum = []))"
  using numTables_zero [of hp r] by (simp add: describe_def)

theorem describe_newline_witness:
  "numTables [fmupd 1 [] (fmupd 3 [] fmempty)] \<lparr>pageTables = 0\<rparr> = 0
   \<and> describe (\<lambda>cell. cell) [fmupd 1 [] (fmupd 3 [] fmempty)] \<lparr>pageTables = 0\<rparr> 4 = [LF]
   \<and> describe (\<lambda>cell. cell) [fmupd 2 [[[''x'']]] fmempty] \<lparr>pageTables = 0\<rparr> 0 = [LF]"
proof -
  have zero: "numTables [fmupd 1 [] (fmupd 3 [] fmempty)] \<lparr>pageTables = 0\<rparr> = 0"
    by code_simp
  from describe_newline [of "\<lambda>cell. cell" "[fmupd 1 [] (fmupd 3 [] fmempty)]" "\<lparr>pageTables = 0\<rparr>" 4]
    describe_newline [of "\<lambda>cell. cell" "[fmupd 2 [[[''x'']]] fmempty]" "\<lparr>pageTables = 0\<rparr>" 4] zero
  show ?thesis by blast
qed

text \<open>
  C6.  When some row of a table is not as long as row 0, \<open>csv\<close> panics: it returns no
  text at all, so no malformed record is emitted.
\<close>

theorem csv_ragged_panics:
  assumes "row \<in> set t" and "length row \<noteq> length (t ! 0)"
  shows "\<exists>y n bad. csv t = Inl (RowLengthMismatch (int (length (t ! 0))) (int (length t)) y n bad)"
proof -
  from assms(1) have "t \<noteq> []" by auto
  then have "csv t = csvRows (int (length (t ! 0))) (int (length t)) 0 [] t"
    by (simp add: csv_def wh_def)
  moreover have "\<not> (\<forall>row \<in> set t. int (length row) = int (length (t ! 0)))"
    using assms by auto
  ultimately show ?thesis
    by (simp only: csvRows_eq if_False) blast
qed

theorem csv_ragged_panics_witness:
  "[''a'', ''b''] \<in> set [[''a'', ''b'', ''c''], [''a'', ''b'']]
   \<and> length [''a'', ''b''] \<noteq> length ([[''a'', ''b'', ''c''], [''a'', ''b'']] ! 0)
   \<and> csv [[''a'', ''b'', ''c''], [''a'', ''b'']] = Inl (RowLengthMismatch 3 2 1 2 [''a'', ''b''])"
proof -
  have mem: "[''a'', ''b''] \<in> set [[''a'', ''b'', ''c''], [''a'', ''b'']]"
    by simp
  have len: "length [''a'', ''b''] \<noteq> length ([[''a'', ''b'', ''c''], [''a'', ''b'']] ! 0)"
    by simp
  have run: "csv [[''a'', ''b'', ''c''], [''a'', ''b'']] = Inl (RowLengthMismatch 3 2 1 2 [''a'', ''b''])"
    by code_simp
  from csv_ragged_panics [OF mem len] mem len run
  show ?thesis by blast
qed

text \<open>
  C3, as stated, fails on extraction.  A document of one page on which the extractor
  finds no table, read with the driver's default page range: the set returned has the
  entry of page 1, and its list is empty.
\<close>

theorem extractTables_stores_empty_entry:
  "extractTables [] (Inr \<lparr>numPages = 1, extractPageTables = (\<lambda>pageNum. Inr [])\<rparr>) (- 1) 10000
     = ([fmupd 1 [] fmempty], Inr \<lparr>pageTables = 0\<rparr>)
   \<and> fmlookup ([fmupd 1 [] fmempty] ! pageTables \<lparr>pageTables = 0\<rparr>) 1 = Some []"
proof
  show "extractTables [] (Inr \<lparr>numPages = 1, extractPageTables = (\<lambda>pageNum. Inr [])\<rparr>) (- 1) 10000
     = ([fmupd 1 [] fmempty], Inr \<lparr>pageTables = 0\<rparr>)"
    by code_simp
  show "fmlookup ([fmupd 1 [] fmempty] ! pageTables \<lparr>pageTables = 0\<rparr>) 1 = Some []"
    by simp
qed

text \<open>
  C3, as the program has it.  Extraction stores an entry for every page of the clamped
  range, with the list the extractor returned for that page, whatever its length, and
  for no other page; the set \<open>filter\<close> returns has no entry whose list is empty.
\<close>

theorem extractTables_and_filter_entries:
  "(extractTables hp opened firstPage lastPage = (hp', Inr r) \<longrightarrow>
      (\<exists>pdf. opened = Inr pdf \<and>
         (\<forall>q. if max 1 firstPage \<le> q \<and> q \<le> min lastPage (numPages pdf)
              then \<exists>tables. extractPageTables pdf q = Inr tables
                     \<and> fmlookup (hp' ! pageTables r) q = Some tables
              else fmlookup (hp' ! pageTables r) q = None)))
   \<and> (pageTables s < length hps \<and> filter_docTables hps s width height = (hps', Inr filtered) \<longrightarrow>
        (\<forall>q tables. fmlookup (hps' ! pageTables filtered) q = Some tables \<longrightarrow> tables \<noteq> []))"
proof (intro conjI impI)
  assume "extractTables hp opened firstPage lastPage = (hp', Inr r)"
  from extractTables_result [OF this]
  show "\<exists>pdf. opened = Inr pdf \<and>
         (\<forall>q. if max 1 firstPage \<le> q \<and> q \<le> min lastPage (numPages pdf)
              then \<exists>tables. extractPageTables pdf q = Inr tables
                     \<and> fmlookup (hp' ! pageTables r) q = Some tables
              else fmlookup (hp' ! pageTables r) q = None)"
    by blast
next
  assume "pageTables s < length hps \<and> filter_docTables hps s width height = (hps', Inr filtered)"
  then have "\<forall>q. fmlookup (hps' ! pageTables filtered) q =
            (if kept width height (hps ! pageTables s) q \<noteq> []
             then Some (kept width height (hps ! pageTables s) q) else None)"
    using filter_docTables_returns [of s hps width height hps' filtered] by blast
  then show "\<forall>q tables. fmlookup (hps' ! pageTables filtered) q = Some tables \<longrightarrow> tables \<noteq> []"
    by (simp split: if_splits)
qed

theorem extractTables_and_filter_entries_witness:
  "extractTables [] (Inr \<lparr>numPages = 3, extractPageTables = (\<lambda>pageNum. Inr (if pageNum = 2 then [[[''a'', ''b'']], [[''x'']]] else []))\<rparr>) (- 1) 10000
     = ([fmupd 3 [] (fmupd 2 [[[''a'', ''b'']], [[''x'']]] (fmupd 1 [] fmempty))], Inr \<lparr>pageTables = 0\<rparr>)
   \<and> filter_docTables [fmupd 3 [] (fmupd 2 [[[''a'', ''b'']], [[''x'']]] (fmupd 1 [] fmempty))] \<lparr>pageTables = 0\<rparr> 2 1
     = ([fmupd 3 [] (fmupd 2 [[[''a'', ''b'']], [[''x'']]] (fmupd 1 [] fmempty)), fmupd 2 [[[''a'', ''b'']]] fmempty],
        Inr \<lparr>pageTables = 1\<rparr>)
   \<and> fmlookup ([fmupd 3 [] (fmupd 2 [[[''a'', ''b'']], [[''x'']]] (fmupd 1 [] fmempty)) :: pageMap] ! 0) 3 = Some []
   \<and> fmlookup ([fmupd 3 [] (fmupd 2 [[[''a'', ''b'']], [[''x'']]] (fmupd 1 [] fmempty)), fmupd 2 [[[''a'', ''b'']]] fmempty :: pageMap] ! 1) 3 = None"
proof -
  let ?pdf = "\<lparr>numPages = 3, extractPageTables = (\<lambda>pageNum. Inr (if pageNum = 2 then [[[''a'', ''b'']], [[''x'']]] else []))\<rparr>"
  let ?S = "fmupd 3 [] (fmupd 2 [[[''a'', ''b'']], [[''x'']]] (fmupd 1 [] fmempty)) :: pageMap"
  let ?F = "fmupd 2 [[[''a'', ''b'']]] fmempty :: pageMap"
  have ex: "extractTables [] (Inr ?pdf) (- 1) 10000 = ([?S], Inr \<lparr>pageTables = 0\<rparr>)"
    by code_simp
  have fi: "filter_docTables [?S] \<lparr>pageTables = 0\<rparr> 2 1 = ([?S, ?F], Inr \<lparr>pageTables = 1\<rparr>)"
    by code_simp
  have valid: "pageTables \<lparr>pageTables = 0\<rparr> < length [?S]"
    by simp
  note inst = extractTables_and_filter_entries
    [where hp = "[]" and opened = "Inr ?pdf" and firstPage = "- 1" and lastPage = 10000
       and hp' = "[?S]" and r = "\<lparr>pageTables = 0\<rparr>" and s = "\<lparr>pageTables = 0\<rparr>"
       and hps = "[?S]" and width = 2 and height = 1 and hps' = "[?S, ?F]"
       and filtered = "\<lparr>pageTables = 1\<rparr>"]
  have a: "fmlookup ([?S] ! 0) 3 = Some []"
    by simp
  have "\<forall>q tables. fmlookup ([?S, ?F] ! pageTables \<lparr>pageTables = 1\<rparr>) q = Some tables \<longrightarrow> tables \<noteq> []"
    using conjunct2 [OF inst, THEN mp, OF conjI [OF valid fi]] .
  then have b: "fmlookup ([?S, ?F] ! 1) 3 = None"
    by simp
  from ex fi a b show ?thesis
    by (intro conjI)
qed

section \<open>Properties of \<open>saveCSVFiles\<close>\<close>


lemma written_append: "written (fs @ gs) = written fs @ written gs"
  by (simp add: written_def)








section \<open>Properties of \<open>reduceSpaces\<close> and \<open>normalize\<close>\<close>

lemma reSpaceClass_SP: "reSpaceClass SP"
  by (simp add: reSpaceClass_def)

lemma adjacent_Cons:
  "adjacent P (a # s) \<longleftrightarrow> (case s of [] \<Rightarrow> False | b # cs \<Rightarrow> P a \<and> P b \<or> adjacent P s)"
  by (cases s) simp_all

lemma adjacent_drop: "adjacent P (drop k s) \<Longrightarrow> adjacent P s"
proof (induction k arbitrary: s)
  case 0
  then show ?case by simp
next
  case (Suc k)
  show ?case
  proof (cases s)
    case Nil
    with Suc.prems show ?thesis by simp
  next
    case (Cons a t)
    with Suc have "adjacent P t" by simp
    with Cons show ?thesis by (cases t) simp_all
  qed
qed

lemma adjacent_take: "adjacent P (take n s) \<Longrightarrow> adjacent P s"
proof (induction s arbitrary: n)
  case Nil
  then show ?case by simp
next
  case (Cons a s)
  show ?case
  proof (cases n)
    case 0
    with Cons.prems show ?thesis by simp
  next
    case (Suc m)
    with Cons.prems have adj: "adjacent P (a # take m s)"
      by simp
    then obtain b r where front: "take m s = b # r"
      by (cases "take m s") simp_all
    then have s: "s \<noteq> []" and b: "hd s = b"
      by (cases s; cases m; simp)+
    from adj front have "P a \<and> P b \<or> adjacent P (take m s)"
      by simp
    with b Cons.IH have "P a \<and> P (hd s) \<or> adjacent P s"
      by blast
    with s show ?thesis
      by (cases s) simp_all
  qed
qed

lemma collapsed_drop: "collapsed s \<Longrightarrow> collapsed (drop k s)"
  unfolding collapsed_def using adjacent_drop [of reSpaceClass k s] set_drop_subset [of k s] by blast

lemma collapsed_take: "collapsed s \<Longrightarrow> collapsed (take n s)"
  unfolding collapsed_def using adjacent_take [of reSpaceClass n s] set_take_subset [of n s] by blast

lemma replace_head:
  "reSpace_ReplaceAllString s = [] \<or> s \<noteq> [] \<and> \<not> reSpaceClass (hd s) \<and> hd (reSpace_ReplaceAllString s) = hd s
   \<or> s \<noteq> [] \<and> reSpaceClass (hd s) \<and> hd (reSpace_ReplaceAllString s) = SP"
  by (cases s) simp_all

lemma dropWhile_head: "dropWhile P s = [] \<or> \<not> P (hd (dropWhile P s))"
  using hd_dropWhile [of P s] by blast

lemma replace_collapsed: "collapsed (reSpace_ReplaceAllString s)"
proof (induction s rule: reSpace_ReplaceAllString.induct)
  case 1
  show ?case by (simp add: collapsed_def)
next
  case (2 c cs)
  show ?case
  proof (cases "reSpaceClass c")
    case True
    let ?rest = "dropWhile reSpaceClass cs"
    from True 2 have IH: "collapsed (reSpace_ReplaceAllString ?rest)" by simp
    have first: "reSpace_ReplaceAllString ?rest = [] \<or> \<not> reSpaceClass (hd (reSpace_ReplaceAllString ?rest))"
      using replace_head [of ?rest] dropWhile_head [of reSpaceClass cs] by auto
    have "\<not> adjacent reSpaceClass (SP # reSpace_ReplaceAllString ?rest)"
      using IH first by (cases "reSpace_ReplaceAllString ?rest") (auto simp: collapsed_def)
    with IH True show ?thesis
      by (simp add: collapsed_def)
  next
    case False
    with 2 have IH: "collapsed (reSpace_ReplaceAllString cs)" by simp
    have "\<not> adjacent reSpaceClass (c # reSpace_ReplaceAllString cs)"
      using IH False by (cases "reSpace_ReplaceAllString cs") (auto simp: collapsed_def)
    with IH False show ?thesis
      by (simp add: collapsed_def)
  qed
qed

lemma replace_fixed: "collapsed s \<Longrightarrow> reSpace_ReplaceAllString s = s"
proof (induction s rule: reSpace_ReplaceAllString.induct)
  case 1
  show ?case by simp
next
  case (2 c cs)
  from "2.prems" have tail: "collapsed cs"
    using collapsed_drop [of "c # cs" 1] by simp
  show ?case
  proof (cases "reSpaceClass c")
    case True
    with "2.prems" have c: "c = SP"
      by (simp add: collapsed_def)
    from True "2.prems" have "cs = [] \<or> \<not> reSpaceClass (hd cs)"
      by (cases cs) (auto simp: collapsed_def)
    then have same: "dropWhile reSpaceClass cs = cs"
      by (cases cs) auto
    with True tail "2.IH"(1) have "reSpace_ReplaceAllString cs = cs"
      by simp
    with True c same show ?thesis by simp
  next
    case False
    with tail "2.IH"(2) have "reSpace_ReplaceAllString cs = cs" by simp
    with False show ?thesis by simp
  qed
qed

lemma rev_dropWhile_rev:
  "rev (dropWhile Q (rev d)) = take (length d - length (takeWhile Q (rev d))) d"
  by (simp add: dropWhile_eq_drop drop_rev)

lemma trim_take_drop:
  "\<exists>n k. strings_Trim s cutset = take n (drop k s)"
proof -
  let ?Q = "\<lambda>c. c \<in> set cutset"
  have "strings_Trim s cutset = take (length (dropWhile ?Q s) - length (takeWhile ?Q (rev (dropWhile ?Q s))))
      (dropWhile ?Q s)"
    unfolding strings_Trim_def by (rule rev_dropWhile_rev)
  also have "dropWhile ?Q s = drop (length (takeWhile ?Q s)) s"
    by (rule dropWhile_eq_drop)
  finally show ?thesis by blast
qed



lemma leading_iff: "leading P s \<longleftrightarrow> s \<noteq> [] \<and> P (hd s)"
  by (cases s) (simp_all add: leading_def)

lemma dropWhile_not_leading: "\<not> leading Q (dropWhile Q s)"
  using dropWhile_head [of Q s] by (simp add: leading_iff)

lemma dropWhile_fixed: "\<not> leading Q s \<Longrightarrow> dropWhile Q s = s"
  by (cases s) (simp_all add: leading_def)

lemma dropWhileEnd_keeps_head:
  assumes "\<not> leading Q d"
  shows "\<not> leading Q (rev (dropWhile Q (rev d)))"
proof (cases d)
  case Nil
  then show ?thesis by (simp add: leading_def)
next
  case (Cons c rest)
  with assms have c: "\<not> Q c" by (simp add: leading_def)
  then have "dropWhile Q (rev rest @ [c]) = dropWhile Q (rev rest) @ [c]"
    by (rule dropWhile_append3)
  with Cons c show ?thesis by (simp add: leading_def)
qed

lemma trim_ends:
  "\<not> leading (\<lambda>c. c \<in> set cutset) (strings_Trim s cutset)
   \<and> \<not> trailing (\<lambda>c. c \<in> set cutset) (strings_Trim s cutset)"
proof
  show "\<not> leading (\<lambda>c. c \<in> set cutset) (strings_Trim s cutset)"
    unfolding strings_Trim_def by (intro dropWhileEnd_keeps_head dropWhile_not_leading)
  show "\<not> trailing (\<lambda>c. c \<in> set cutset) (strings_Trim s cutset)"
    unfolding strings_Trim_def trailing_def rev_rev_ident by (rule dropWhile_not_leading)
qed

lemma trim_fixed:
  assumes "\<not> leading (\<lambda>c. c \<in> set cutset) s" and "\<not> trailing (\<lambda>c. c \<in> set cutset) s"
  shows "strings_Trim s cutset = s"
proof -
  from assms(1) have "dropWhile (\<lambda>c. c \<in> set cutset) s = s"
    by (rule dropWhile_fixed)
  moreover from assms(2) have "dropWhile (\<lambda>c. c \<in> set cutset) (rev s) = rev s"
    unfolding trailing_def by (rule dropWhile_fixed)
  ultimately show ?thesis
    by (simp add: strings_Trim_def)
qed

lemma reduceSpaces_collapsed: "collapsed (reduceSpaces text)"
proof -
  obtain n k where "reduceSpaces text = take n (drop k (reSpace_ReplaceAllString text))"
    unfolding reduceSpaces_def using trim_take_drop by blast
  then show ?thesis
    using replace_collapsed [of "text"] by (simp add: collapsed_take collapsed_drop)
qed

lemma reduceSpaces_idempotent: "reduceSpaces (reduceSpaces text) = reduceSpaces text"
proof -
  have "reSpace_ReplaceAllString (reduceSpaces text) = reduceSpaces text"
    using reduceSpaces_collapsed by (rule replace_fixed)
  moreover have "strings_Trim (reduceSpaces text) [SP, TAB, LF, CR, VT] = reduceSpaces text"
    using trim_ends [of "[SP, TAB, LF, CR, VT]" "reSpace_ReplaceAllString text"]
    by (intro trim_fixed) (simp_all add: reduceSpaces_def)
  moreover have "reduceSpaces (reduceSpaces text)
      = strings_Trim (reSpace_ReplaceAllString (reduceSpaces text)) [SP, TAB, LF, CR, VT]"
    by (rule reduceSpaces_def)
  ultimately show ?thesis
    by simp
qed

lemma reduceSpaces_ends:
  "\<not> leading asciiSpace (reduceSpaces text) \<and> \<not> trailing asciiSpace (reduceSpaces text)"
proof -
  let ?r = "reduceSpaces text"
  have noFF: "FF \<notin> set ?r"
    using reduceSpaces_collapsed [of "text"]
    by (auto simp: collapsed_def reSpaceClass_def FF_def SP_def)
  have cut: "\<not> leading (\<lambda>c. c \<in> set [SP, TAB, LF, CR, VT]) ?r
      \<and> \<not> trailing (\<lambda>c. c \<in> set [SP, TAB, LF, CR, VT]) ?r"
    unfolding reduceSpaces_def by (rule trim_ends)
  have "\<not> leading asciiSpace ?r"
    using cut noFF by (cases ?r) (auto simp: leading_def asciiSpace_def)
  moreover have "\<not> trailing asciiSpace ?r"
    using cut noFF by (cases "rev ?r") (auto simp: trailing_def leading_def asciiSpace_def)
  ultimately show ?thesis by simp
qed

text \<open>
  What the program does guarantee for every input.  \<open>reduceSpaces\<close> is idempotent, and
  \<open>normalize\<close> is idempotent wherever NFKC leaves its result unchanged (NFKC being a
  parameter here).  The result of \<open>normalize\<close> never holds two characters of the class
  \<open>\s\<close> (space, tab, line feed, form feed, carriage return) side by side; of that class
  it holds only spaces.  It neither starts nor ends with a whitespace character of ASCII.
\<close>

lemma normalize_properties:
  "reduceSpaces (reduceSpaces input) = reduceSpaces input
   \<and> (nfkc (normalize nfkc input) = normalize nfkc input \<longrightarrow>
        normalize nfkc (normalize nfkc input) = normalize nfkc input)
   \<and> \<not> adjacent reSpaceClass (normalize nfkc input)
   \<and> (\<forall>c \<in> set (normalize nfkc input). reSpaceClass c \<longrightarrow> c = SP)
   \<and> \<not> leading asciiSpace (normalize nfkc input)
   \<and> \<not> trailing asciiSpace (normalize nfkc input)"
proof (intro conjI impI ballI)
  show "reduceSpaces (reduceSpaces input) = reduceSpaces input"
    by (rule reduceSpaces_idempotent)
next
  assume fixed: "nfkc (normalize nfkc input) = normalize nfkc input"
  have "normalize nfkc (normalize nfkc input) = reduceSpaces (nfkc (normalize nfkc input))"
    by (rule normalize_def)
  also have "\<dots> = reduceSpaces (normalize nfkc input)"
    by (subst fixed) (rule refl)
  also have "\<dots> = normalize nfkc input"
    unfolding normalize_def by (rule reduceSpaces_idempotent)
  finally show "normalize nfkc (normalize nfkc input) = normalize nfkc input" .
next
  have "collapsed (reduceSpaces (nfkc input))"
    by (rule reduceSpaces_collapsed)
  then show "\<not> adjacent reSpaceClass (normalize nfkc input)"
    unfolding normalize_def collapsed_def by (rule conjunct2)
next
  fix c
  assume "c \<in> set (normalize nfkc input)" and "reSpaceClass c"
  moreover have "collapsed (reduceSpaces (nfkc input))"
    by (rule reduceSpaces_collapsed)
  ultimately show "c = SP"
    unfolding normalize_def collapsed_def by blast
next
  show "\<not> leading asciiSpace (normalize nfkc input)"
    unfolding normalize_def using reduceSpaces_ends [of "nfkc input"] by (rule conjunct1)
next
  show "\<not> trailing asciiSpace (normalize nfkc input)"
    unfolding normalize_def using reduceSpaces_ends [of "nfkc input"] by (rule conjunct2)
qed

lemma normalize_properties_example:
  "normalize (\<lambda>text. text) [SP, CHR ''a'', TAB, LF, VT, SP, CHR ''b'', FF] = [CHR ''a'', SP, VT, SP, CHR ''b'']
   \<and> normalize (\<lambda>text. text) [CHR ''a'', SP, VT, SP, CHR ''b''] = [CHR ''a'', SP, VT, SP, CHR ''b'']
   \<and> \<not> adjacent reSpaceClass [CHR ''a'', SP, VT, SP, CHR ''b'']
   \<and> \<not> leading asciiSpace [CHR ''a'', SP, VT, SP, CHR ''b'']
   \<and> \<not> trailing asciiSpace [CHR ''a'', SP, VT, SP, CHR ''b'']"
proof -
  let ?in = "[SP, CHR ''a'', TAB, LF, VT, SP, CHR ''b'', FF]"
  let ?out = "[CHR ''a'', SP, VT, SP, CHR ''b'']"
  have run: "normalize (\<lambda>text. text) ?in = ?out"
    by code_simp
  note inst = normalize_properties [where input = "?in" and nfkc = "\<lambda>text. text"]
  from inst have idem: "normalize (\<lambda>text. text) (normalize (\<lambda>text. text) ?in) = normalize (\<lambda>text. text) ?in"
    by blast
  from inst have rest: "\<not> adjacent reSpaceClass (normalize (\<lambda>text. text) ?in)
      \<and> \<not> leading asciiSpace (normalize (\<lambda>text. text) ?in)
      \<and> \<not> trailing asciiSpace (normalize (\<lambda>text. text) ?in)"
    by blast
  from idem [unfolded run] rest [unfolded run] run show ?thesis
    by blast
qed

text \<open>
  C4.  The output of \<open>normalize\<close> should never hold two whitespace characters side by
  side.  The vertical tab is a whitespace character, and the program treats it as one:
  the cutset of \<open>strings.Trim\<close> in \<open>reduceSpaces\<close> lists it, and the comment of
  \<open>reduceSpaces\<close> promises that runs of spaces of any kind become one space.  But the
  class \<open>\s\<close> of the regular expression does not hold it.  On the ASCII text \<open>a\<close>, two
  vertical tabs, \<open>b\<close>, which NFKC leaves as it is, \<open>normalize\<close> returns its input, with the
  two vertical tabs side by side.
\<close>

theorem normalize_keeps_vertical_tabs:
  "normalize (\<lambda>text. text) [CHR ''a'', VT, VT, CHR ''b''] = [CHR ''a'', VT, VT, CHR ''b'']
   \<and> adjacent asciiSpace (normalize (\<lambda>text. text) [CHR ''a'', VT, VT, CHR ''b''])
   \<and> VT \<in> set [SP, TAB, LF, CR, VT]
   \<and> \<not> reSpaceClass VT"
  by code_simp

section \<open>Writing a table and reading it back\<close>

lemma quoted_field:
  "readRecords InQuoted field before records (escapeField f @ CHR 0x22 # rest)
     = readRecords QuoteSeen (field @ f) before records rest"
  by (induction f arbitrary: field) simp_all

lemma after_quote:
  "t = CHR '','' \<or> t = LF \<Longrightarrow>
     readRecords QuoteSeen field before records (t # rest) = continue t field before records rest"
  by (auto simp: continue_def LF_def)

lemma plain_field:
  "plain g \<Longrightarrow> readRecords InField field before records (g @ rest)
     = readRecords InField (field @ g) before records rest"
  by (induction g arbitrary: field) (simp_all add: plain_def)

lemma after_plain:
  "t = CHR '','' \<or> t = LF \<Longrightarrow>
     readRecords InField field before records (t # rest) = continue t field before records rest"
  by (auto simp: continue_def LF_def)

lemma unquoted_plain: "\<not> fieldNeedsQuotes f \<Longrightarrow> plain f \<and> CR \<notin> set f"
  by (auto simp: fieldNeedsQuotes_def plain_def list_ex_iff split: if_splits)

lemma start_field:
  assumes M: "M = RecordStart \<or> M = FieldStart"
    and t: "t = CHR '','' \<or> t = LF"
    and blank: "\<not> (M = RecordStart \<and> f = [] \<and> t = LF)"
  shows "readRecords M x before records (writeField f @ t # rest) = continue t f before records rest"
proof (cases "fieldNeedsQuotes f")
  case True
  then have "writeField f @ t # rest = CHR 0x22 # (escapeField f @ CHR 0x22 # (t # rest))"
    by (simp add: writeField_def)
  moreover have "readRecords M x before records (CHR 0x22 # (escapeField f @ CHR 0x22 # (t # rest)))
      = readRecords InQuoted [] before records (escapeField f @ CHR 0x22 # (t # rest))"
    using M by (auto simp: LF_def)
  moreover have "readRecords InQuoted [] before records (escapeField f @ CHR 0x22 # (t # rest))
      = readRecords QuoteSeen ([] @ f) before records (t # rest)"
    by (rule quoted_field)
  moreover have "readRecords QuoteSeen ([] @ f) before records (t # rest) = continue t f before records rest"
    by (simp only: append_Nil after_quote [OF t])
  ultimately show ?thesis
    by (simp only:)
next
  case False
  then have w: "writeField f = f" and p: "plain f"
    using unquoted_plain [of f] by (simp_all add: writeField_def)
  show ?thesis
  proof (cases f)
    case Nil
    with w blank M t show ?thesis
      by (auto simp: continue_def LF_def)
  next
    case (Cons c g)
    with p have c: "c \<noteq> LF \<and> c \<noteq> CHR '','' \<and> c \<noteq> CHR 0x22" and g: "plain g"
      by (simp_all add: plain_def)
    have "readRecords M x before records (c # (g @ t # rest))
        = readRecords InField [c] before records (g @ t # rest)"
      using M c by auto
    also have "\<dots> = readRecords InField ([c] @ g) before records (t # rest)"
      using g by (rule plain_field)
    also have "\<dots> = continue t f before records rest"
      unfolding Cons by (simp only: append_Cons append_Nil after_plain [OF t])
    finally show ?thesis
      using w Cons by simp
  qed
qed

lemma read_row:
  assumes "cells \<noteq> []" and "M = RecordStart \<or> M = FieldStart"
    and "\<not> (M = RecordStart \<and> cells = [[]])"
  shows "readRecords M x before records (strings_Join (map writeField cells) '','' @ LF # rest)
     = readRecords RecordStart [] [] (records @ [before @ cells]) rest"
  using assms
proof (induction cells arbitrary: M x before)
  case Nil
  then show ?case by simp
next
  case (Cons f cells)
  show ?case
  proof (cases cells)
    case Nil
    have "readRecords M x before records (writeField f @ LF # rest) = continue LF f before records rest"
      using Cons.prems Nil by (intro start_field) auto
    with Nil show ?thesis
      by (simp add: continue_def LF_def)
  next
    case (Cons f' cells')
    have "readRecords M x before records (writeField f @ CHR '','' # (strings_Join (map writeField cells) '','' @ LF # rest))
        = continue (CHR '','') f before records (strings_Join (map writeField cells) '','' @ LF # rest)"
      using Cons.prems by (intro start_field) (auto simp: LF_def)
    also have "\<dots> = readRecords FieldStart [] (before @ [f]) records
        (strings_Join (map writeField cells) '','' @ LF # rest)"
      by (simp add: continue_def)
    also have "\<dots> = readRecords RecordStart [] [] (records @ [(before @ [f]) @ cells]) rest"
      using Cons by (intro Cons.IH) simp_all
    finally show ?thesis
      using Cons by simp
  qed
qed

lemma read_table:
  assumes "\<forall>row \<in> set t. row \<noteq> [] \<and> row \<noteq> [[]]"
  shows "readRecords RecordStart [] [] records (concat (map csvWriter_Write t) @ rest)
     = readRecords RecordStart [] [] (records @ t) rest"
  using assms
proof (induction t arbitrary: records)
  case Nil
  show ?case by simp
next
  case (Cons row t)
  have "concat (map csvWriter_Write (row # t)) @ rest
      = strings_Join (map writeField row) '','' @ LF # (concat (map csvWriter_Write t) @ rest)"
    by (simp add: csvWriter_Write_def [of row])
  moreover have "readRecords RecordStart [] [] records
        (strings_Join (map writeField row) '','' @ LF # (concat (map csvWriter_Write t) @ rest))
      = readRecords RecordStart [] [] (records @ [[] @ row]) (concat (map csvWriter_Write t) @ rest)"
    using Cons.prems by (intro read_row) simp_all
  moreover have "readRecords RecordStart [] [] (records @ [[] @ row]) (concat (map csvWriter_Write t) @ rest)
      = readRecords RecordStart [] [] ((records @ [[] @ row]) @ t) rest"
    using Cons.prems by (intro Cons.IH) simp
  ultimately show ?case
    by simp
qed

lemma hasCRLF_Cons: "hasCRLF (c # s) \<longleftrightarrow> s \<noteq> [] \<and> c = CR \<and> hd s = LF \<or> hasCRLF s"
  by (cases s) auto

lemma hasCRLF_append:
  "hasCRLF (a @ b) \<longleftrightarrow> hasCRLF a \<or> hasCRLF b \<or> a \<noteq> [] \<and> b \<noteq> [] \<and> last a = CR \<and> hd b = LF"
proof (induction a)
  case Nil
  show ?case by simp
next
  case (Cons c a)
  show ?case
  proof (cases a)
    case Nil
    then show ?thesis by (auto simp: hasCRLF_Cons)
  next
    case (Cons d a')
    with Cons.IH show ?thesis by (auto simp: hasCRLF_Cons)
  qed
qed

lemma safe_append: "safe a \<Longrightarrow> safe b \<Longrightarrow> safe (a @ b)"
  by (auto simp: safe_def hasCRLF_append last_append)

lemma safe_fixed: "safe s \<Longrightarrow> readLineEndings s = s"
proof (induction s rule: readLineEndings.induct)
  case (1 c d cs)
  from "1.prems" have ncr: "\<not> (c = CR \<and> d = LF)" and tail: "safe (d # cs)"
    by (auto simp: safe_def)
  with "1.IH"(2) show ?case by auto
next
  case (2 c)
  then show ?case by (simp add: safe_def)
next
  case 3
  show ?case by simp
qed

lemma escapeField_hd: "s \<noteq> [] \<Longrightarrow> escapeField s \<noteq> [] \<and> hd (escapeField s) = hd s"
  by (cases s) auto

lemma escapeField_CRLF: "hasCRLF (escapeField f) = hasCRLF f"
proof (induction f)
  case Nil
  show ?case by simp
next
  case (Cons c f)
  have "CHR 0x22 \<noteq> CR" by (simp add: CR_def)
  with Cons escapeField_hd [of f] show ?case
    by (cases "f = []") (auto simp: hasCRLF_Cons)
qed

lemma safe_writeField:
  assumes "\<not> hasCRLF f"
  shows "safe (writeField f)"
proof (cases "fieldNeedsQuotes f")
  case True
  have q: "CHR 0x22 \<noteq> CR" "CHR 0x22 \<noteq> LF"
    by (simp_all add: CR_def LF_def)
  have "\<not> hasCRLF (escapeField f @ [CHR 0x22])"
    using assms q by (simp add: hasCRLF_append escapeField_CRLF)
  then have "\<not> hasCRLF (CHR 0x22 # (escapeField f @ [CHR 0x22]))"
    using q by (simp add: hasCRLF_Cons)
  with True q show ?thesis
    by (simp add: safe_def writeField_def)
next
  case False
  then have "CR \<notin> set f"
    using unquoted_plain by blast
  then have "f = [] \<or> last f \<noteq> CR"
    by (metis last_in_set)
  with False assms show ?thesis
    by (simp add: safe_def writeField_def)
qed

lemma safe_join:
  "\<forall>cell \<in> set cells. \<not> hasCRLF cell \<Longrightarrow> safe (strings_Join (map writeField cells) '','')"
proof (induction cells rule: induct_list012)
  case 1
  show ?case by (simp add: safe_def)
next
  case (2 f)
  then show ?case by (simp add: safe_writeField)
next
  case (3 f f' cells)
  have "safe '',''"
    by (simp add: safe_def CR_def)
  moreover have "safe (writeField f)"
    using 3 by (simp add: safe_writeField)
  moreover have "safe (strings_Join (map writeField (f' # cells)) '','')"
    using 3 by simp
  ultimately have "safe (writeField f @ ('','' @ strings_Join (map writeField (f' # cells)) '',''))"
    by (intro safe_append)
  then show ?case by simp
qed

lemma safe_table:
  "\<forall>row \<in> set t. \<forall>cell \<in> set row. \<not> hasCRLF cell \<Longrightarrow> safe (concat (map csvWriter_Write t))"
proof (induction t)
  case Nil
  show ?case by (simp add: safe_def)
next
  case (Cons row t)
  have "safe [LF]"
    by (simp add: safe_def CR_def LF_def)
  moreover have "safe (strings_Join (map writeField row) '','')"
    using Cons.prems by (simp add: safe_join)
  moreover have "safe (concat (map csvWriter_Write t))"
    using Cons by simp
  ultimately have "safe (strings_Join (map writeField row) '','' @ ([LF] @ concat (map csvWriter_Write t)))"
    by (intro safe_append)
  then show ?case
    by (simp add: csvWriter_Write_def [of row])
qed

text \<open>
  C5, as stated, fails.  A row without cells and a row of one empty cell are both
  written as an empty line, so the tables \<open>[[]]\<close> and \<open>[[""]]\<close> have the same text and no
  parser can give back both; the reader skips the empty line and returns no record at
  all.  And a cell that holds a carriage return followed by a line feed comes back with
  the line feed only.  None of these cells holds a null byte.
\<close>

theorem csv_blank_rows_collide:
  "csv [[]] = Inr [LF] \<and> csv [['''']] = Inr [LF] \<and> csvReader_ReadAll [LF] = Inr []
   \<and> csv [[[CHR ''a'', CR, LF, CHR ''b'']]] = Inr [CHR 0x22, CHR ''a'', CR, LF, CHR ''b'', CHR 0x22, LF]
   \<and> csvReader_ReadAll [CHR 0x22, CHR ''a'', CR, LF, CHR ''b'', CHR 0x22, LF] = Inr [[[CHR ''a'', LF, CHR ''b'']]]"
  by code_simp

text \<open>
  C5, as the program has it.  For a rectangular table in which no row is empty or is a
  single empty cell, and no cell holds a carriage return followed at once by a line feed,
  \<open>csv\<close> returns a text from which the reader gets the grid of cells back exactly.
\<close>

theorem csv_roundtrip:
  assumes rect: "\<forall>row \<in> set t. length row = length (t ! 0)"
    and nonblank: "\<forall>row \<in> set t. row \<noteq> [] \<and> row \<noteq> [[]]"
    and nocrlf: "\<forall>row \<in> set t. \<forall>cell \<in> set row. \<not> hasCRLF cell"
  shows "\<exists>s. csv t = Inr s \<and> csvReader_ReadAll s = Inr t"
proof -
  let ?s = "concat (map csvWriter_Write t)"
  have out: "csv t = Inr ?s"
    using rect by (rule csv_rectangular)
  have "readLineEndings ?s = ?s"
    using nocrlf by (intro safe_fixed safe_table)
  moreover have "readRecords RecordStart [] [] [] (?s @ []) = readRecords RecordStart [] [] ([] @ t) []"
    using nonblank by (rule read_table)
  moreover have "list_all (\<lambda>row. length row = length (hd t)) t"
    using rect by (cases t) (simp_all add: list_all_iff)
  ultimately have "csvReader_ReadAll ?s = Inr t"
    by (simp add: csvReader_ReadAll_def)
  with out show ?thesis by blast
qed

theorem csv_roundtrip_witness:
  "csv [[''a'', ''b c'', '' d''], [''x,y'', [CHR ''q'', CHR 0x22, CHR ''r''], '''']]
     = Inr (''a,b c,'' @ [CHR 0x22] @ '' d'' @ [CHR 0x22, LF, CHR 0x22] @ ''x,y'' @ [CHR 0x22] @ '',''
            @ [CHR 0x22, CHR ''q'', CHR 0x22, CHR 0x22, CHR ''r'', CHR 0x22] @ '','' @ [LF])
   \<and> csvReader_ReadAll (''a,b c,'' @ [CHR 0x22] @ '' d'' @ [CHR 0x22, LF, CHR 0x22] @ ''x,y'' @ [CHR 0x22] @ '',''
            @ [CHR 0x22, CHR ''q'', CHR 0x22, CHR 0x22, CHR ''r'', CHR 0x22] @ '','' @ [LF])
     = Inr [[''a'', ''b c'', '' d''], [''x,y'', [CHR ''q'', CHR 0x22, CHR ''r''], '''']]"
proof -
  let ?t = "[[''a'', ''b c'', '' d''], [''x,y'', [CHR ''q'', CHR 0x22, CHR ''r''], '''']]"
  let ?s = "''a,b c,'' @ [CHR 0x22] @ '' d'' @ [CHR 0x22, LF, CHR 0x22] @ ''x,y'' @ [CHR 0x22] @ '',''
            @ [CHR 0x22, CHR ''q'', CHR 0x22, CHR 0x22, CHR ''r'', CHR 0x22] @ '','' @ [LF]"
  have rect: "\<forall>row \<in> set ?t. length row = length (?t ! 0)"
    by simp
  have nonblank: "\<forall>row \<in> set ?t. row \<noteq> [] \<and> row \<noteq> [[]]"
    by simp
  have nocrlf: "\<forall>row \<in> set ?t. \<forall>cell \<in> set row. \<not> hasCRLF cell"
    by (simp add: CR_def)
  have run: "csv ?t = Inr ?s"
    by code_simp
  from csv_roundtrip [OF rect nonblank nocrlf] obtain s
    where "csv ?t = Inr s" and parsed: "csvReader_ReadAll s = Inr ?t"
    by blast
  with run have "s = ?s" by simp
  with parsed run show ?thesis by blast
qed

end
